theory Spec2Isabelle
  imports Main "HOL-Library.Word"
begin

unbundle bit_operations_syntax

section \<open>The Mutex of package sync (src/sync/mutex.go)\<close>

subsection \<open>Data\<close>

text \<open>
  \<^verbatim>\<open>type Mutex struct { state int32; sema uint32 }\<close>.
  Both fields are 32-bit machine words; \<open>+\<close> and \<open>-\<close> wrap around. The field
  \<open>state\<close> is signed in Go: its right shift is the arithmetic one
  (\<open>signed_drop_bit\<close>), and its comparisons with 0 do not depend on the sign.
\<close>

type_synonym int32 = "32 word"
type_synonym uint32 = "32 word"

record Mutex =
  state :: int32
  sema :: uint32

text \<open>
  \<^verbatim>\<open>const ( mutexLocked = 1 << iota; mutexWoken; mutexWaiterShift = iota )\<close>:
  \<open>iota\<close> is 0, 1, 2 on the three lines, and the second line repeats \<open>1 << iota\<close>.
\<close>

definition mutexLocked :: int32 where
  "mutexLocked = push_bit 0 1"

definition mutexWoken :: int32 where
  "mutexWoken = push_bit 1 1"

definition mutexWaiterShift :: nat where
  "mutexWaiterShift = 2"

text \<open>The zero value of the struct: \<^verbatim>\<open>var m sync.Mutex\<close>.\<close>

definition zero_Mutex :: Mutex where
  "zero_Mutex = \<lparr>state = 0, sema = 0\<rparr>"

text \<open>The waiter count field of a state word, as the source reads it:
  \<^verbatim>\<open>old>>mutexWaiterShift\<close> on an int32.\<close>

definition waiters :: "int32 \<Rightarrow> int32" where
  "waiters st = signed_drop_bit mutexWaiterShift st"

subsection \<open>Collaborators that are not part of mutex.go\<close>

text \<open>
  Modelled from the spec: \<^verbatim>\<open>atomic.CompareAndSwapInt32\<close> of package sync/atomic, which
  is not among the sources. The spec's glossary: an atomic operation that updates a
  memory location only if its current value matches an expected value, reporting
  success or failure.
\<close>

definition CompareAndSwapInt32 :: "Mutex \<Rightarrow> int32 \<Rightarrow> int32 \<Rightarrow> bool \<times> Mutex" where
  "CompareAndSwapInt32 m old_v new_v =
     (if state m = old_v then (True, m\<lparr>state := new_v\<rparr>) else (False, m))"

text \<open>
  Modelled from the spec: \<^verbatim>\<open>atomic.AddInt32\<close> of package sync/atomic, which is not
  among the sources. The spec (4.2): atomically subtract the weight from \<open>state\<close>,
  producing \<open>new\<close>; so the call adds \<open>delta\<close> in place and returns the new value.
\<close>

definition AddInt32 :: "Mutex \<Rightarrow> int32 \<Rightarrow> int32 \<times> Mutex" where
  "AddInt32 m delta = (state m + delta, m\<lparr>state := state m + delta\<rparr>)"

text \<open>
  Modelled from the spec: \<^verbatim>\<open>runtime_Semacquire\<close>, declared in the runtime and not
  among the sources. The spec (6): acquire blocks until a matching release. The comment
  at mutex.go:89: if \<open>sema\<close> is positive it is decremented and the call continues, if it
  is 0 the goroutine sleeps. \<open>None\<close> is the sleeping goroutine: the call has not returned.
\<close>

definition runtime_Semacquire :: "Mutex \<Rightarrow> Mutex option" where
  "runtime_Semacquire m = (if sema m = 0 then None else Some (m\<lparr>sema := sema m - 1\<rparr>))"

text \<open>
  Modelled from the spec: \<^verbatim>\<open>runtime_Semrelease\<close>, declared in the runtime and not
  among the sources. The spec (6): release wakes one blocked acquire, or leaves a credit
  if none is currently blocked. The comment at mutex.go:130: \<open>sema\<close> is incremented.
\<close>

definition runtime_Semrelease :: "Mutex \<Rightarrow> Mutex" where
  "runtime_Semrelease m = m\<lparr>sema := sema m + 1\<rparr>"

text \<open>
  The rest of the runtime that Lock and Unlock consult is a parameter:
  \<^verbatim>\<open>runtime_canSpin(iter)\<close>, the spin advisor, is any predicate on \<open>iter\<close> (the
  scheduler may answer differently at each call, so every step takes its own
  \<open>runtime\<close>), and \<^verbatim>\<open>raceenabled\<close> is the build constant of the race detector.
  Go's \<open>int\<close> (the type of \<open>iter\<close>) is 32 or 64 bits wide by platform; \<open>iter\<close> is only
  ever passed to the advisor, and it is an unbounded integer here.
\<close>

record runtime =
  runtime_canSpin :: "int \<Rightarrow> bool"
  raceenabled :: bool

text \<open>
  What a goroutine does besides reading and writing the Mutex is recorded as events:
  \<^verbatim>\<open>runtime_doSpin()\<close>, the two semaphore calls once they have returned, and the two
  race detector hooks.
\<close>

datatype event = DoSpin | Semacquire | Semrelease | RaceAcquire | RaceRelease

datatype error = Panic string

subsection \<open>Control points and locals of a goroutine\<close>

text \<open>
  Lock and Unlock touch the shared word only through single atomic operations, and
  other goroutines may run between any two of them. A control point is the next access
  to the Mutex that the goroutine will perform; the number is the line of mutex.go.
  \<open>Returned\<close>: the goroutine is not inside Lock or Unlock. \<open>Panicked\<close>: its call
  ended in a panic.
\<close>

datatype label =
    Lock_FastCAS        \<comment> \<open>line 47: \<^verbatim>\<open>CompareAndSwapInt32(&m.state, 0, mutexLocked)\<close>\<close>
  | Lock_Load           \<comment> \<open>line 59: \<^verbatim>\<open>old := m.state\<close>\<close>
  | Lock_SpinCAS        \<comment> \<open>line 67: \<^verbatim>\<open>CompareAndSwapInt32(&m.state, old, old|mutexWoken)\<close>\<close>
  | Lock_CAS            \<comment> \<open>line 85: \<^verbatim>\<open>CompareAndSwapInt32(&m.state, old, new)\<close>\<close>
  | Lock_Semacquire     \<comment> \<open>line 91: \<^verbatim>\<open>runtime_Semacquire(&m.sema)\<close>\<close>
  | Unlock_Add          \<comment> \<open>line 115: \<^verbatim>\<open>AddInt32(&m.state, -mutexLocked)\<close>\<close>
  | Unlock_CAS          \<comment> \<open>line 129: \<^verbatim>\<open>CompareAndSwapInt32(&m.state, old, new)\<close>\<close>
  | Unlock_Semrelease   \<comment> \<open>line 131: \<^verbatim>\<open>runtime_Semrelease(&m.sema)\<close>\<close>
  | Unlock_Load         \<comment> \<open>line 134: \<^verbatim>\<open>old = m.state\<close>\<close>
  | Returned
  | Panicked

record frame =
  pc :: label
  awoke :: bool
  iter :: int
  old :: int32
  new :: int32

definition enter_Lock :: frame where
  "enter_Lock = \<lparr>pc = Lock_FastCAS, awoke = False, iter = 0, old = 0, new = 0\<rparr>"

definition enter_Unlock :: frame where
  "enter_Unlock = \<lparr>pc = Unlock_Add, awoke = False, iter = 0, old = 0, new = 0\<rparr>"

definition race_acquire :: "runtime \<Rightarrow> event list" where
  "race_acquire rt = (if raceenabled rt then [RaceAcquire] else [])"

definition race_release :: "runtime \<Rightarrow> event list" where
  "race_release rt = (if raceenabled rt then [RaceRelease] else [])"

subsection \<open>Lock\<close>

text \<open>
  Lines 60 to 84: the body of the loop from the value \<open>old0\<close> just read at line 59 up
  to the next access to the Mutex. \<^verbatim>\<open>&&\<close> evaluates left to right and stops early, so
  the advisor is asked only when the locked bit is set, and the CAS of line 67 is
  reached only when the three tests before it hold.
\<close>

definition Lock_iteration :: "runtime \<Rightarrow> frame \<Rightarrow> int32 \<Rightarrow> error + frame \<times> event list" where
  "Lock_iteration rt f old0 =
     (let new0 = old0 OR mutexLocked in
      if old0 AND mutexLocked \<noteq> 0 \<and> runtime_canSpin rt (iter f) then
        if \<not> awoke f \<and> old0 AND mutexWoken = 0 \<and> signed_drop_bit mutexWaiterShift old0 \<noteq> 0
        then Inr (f\<lparr>pc := Lock_SpinCAS, old := old0, new := new0\<rparr>, [])
        else Inr (f\<lparr>pc := Lock_Load, iter := iter f + 1, old := old0, new := new0\<rparr>, [DoSpin])
      else
        let new1 = (if old0 AND mutexLocked \<noteq> 0 then old0 + push_bit mutexWaiterShift 1 else new0) in
        if awoke f then
          if new1 AND mutexWoken = 0 then Inl (Panic ''sync: inconsistent mutex state'')
          else Inr (f\<lparr>pc := Lock_CAS, old := old0, new := new1 AND NOT mutexWoken\<rparr>, [])
        else Inr (f\<lparr>pc := Lock_CAS, old := old0, new := new1\<rparr>, []))"

subsection \<open>Unlock\<close>

text \<open>
  Lines 124 to 128: the head of the wake loop for the value \<open>old0\<close> of \<open>old\<close>, up to the
  return or to the CAS of line 129.
\<close>

definition Unlock_iteration :: "frame \<Rightarrow> int32 \<Rightarrow> event list \<Rightarrow> error + frame \<times> event list" where
  "Unlock_iteration f old0 evs =
     (if signed_drop_bit mutexWaiterShift old0 = 0 \<or> old0 AND (mutexLocked OR mutexWoken) \<noteq> 0
      then Inr (f\<lparr>pc := Returned, old := old0\<rparr>, evs)
      else Inr (f\<lparr>pc := Unlock_CAS, old := old0,
                  new := (old0 - push_bit mutexWaiterShift 1) OR mutexWoken\<rparr>, evs))"

subsection \<open>One atomic step of a goroutine\<close>

text \<open>
  \<open>step rt m f\<close>: the goroutine with locals \<open>f\<close> performs the access at its control
  point on the Mutex \<open>m\<close> and runs on to its next control point. The result is the
  Mutex after the access, and either the panic or the new locals with the events of
  the step. A goroutine parked in \<^verbatim>\<open>runtime_Semacquire\<close> (line 91, \<open>sema\<close> is 0) does
  not move.
\<close>

definition step :: "runtime \<Rightarrow> Mutex \<Rightarrow> frame \<Rightarrow> Mutex \<times> (error + frame \<times> event list)" where
  "step rt m f =
     (case pc f of
        Lock_FastCAS \<Rightarrow>
          (case CompareAndSwapInt32 m 0 mutexLocked of
             (True, m') \<Rightarrow> (m', Inr (f\<lparr>pc := Returned\<rparr>, race_acquire rt))
           | (False, m') \<Rightarrow> (m', Inr (f\<lparr>pc := Lock_Load, awoke := False, iter := 0\<rparr>, [])))
      | Lock_Load \<Rightarrow> (m, Lock_iteration rt f (state m))
      | Lock_SpinCAS \<Rightarrow>
          (case CompareAndSwapInt32 m (old f) (old f OR mutexWoken) of
             (True, m') \<Rightarrow> (m', Inr (f\<lparr>pc := Lock_Load, awoke := True, iter := iter f + 1\<rparr>, [DoSpin]))
           | (False, m') \<Rightarrow> (m', Inr (f\<lparr>pc := Lock_Load, iter := iter f + 1\<rparr>, [DoSpin])))
      | Lock_CAS \<Rightarrow>
          (case CompareAndSwapInt32 m (old f) (new f) of
             (True, m') \<Rightarrow>
               if old f AND mutexLocked = 0
               then (m', Inr (f\<lparr>pc := Returned\<rparr>, race_acquire rt))
               else (m', Inr (f\<lparr>pc := Lock_Semacquire\<rparr>, []))
           | (False, m') \<Rightarrow> (m', Inr (f\<lparr>pc := Lock_Load\<rparr>, [])))
      | Lock_Semacquire \<Rightarrow>
          (case runtime_Semacquire m of
             None \<Rightarrow> (m, Inr (f, []))
           | Some m' \<Rightarrow> (m', Inr (f\<lparr>pc := Lock_Load, awoke := True, iter := 0\<rparr>, [Semacquire])))
      | Unlock_Add \<Rightarrow>
          (case AddInt32 m (- mutexLocked) of
             (new0, m') \<Rightarrow>
               if (new0 + mutexLocked) AND mutexLocked = 0
               then (m', Inl (Panic ''sync: unlock of unlocked mutex''))
               else (m', Unlock_iteration (f\<lparr>new := new0\<rparr>) new0 (race_release rt)))
      | Unlock_CAS \<Rightarrow>
          (case CompareAndSwapInt32 m (old f) (new f) of
             (True, m') \<Rightarrow> (m', Inr (f\<lparr>pc := Unlock_Semrelease\<rparr>, []))
           | (False, m') \<Rightarrow> (m', Inr (f\<lparr>pc := Unlock_Load\<rparr>, [])))
      | Unlock_Semrelease \<Rightarrow> (runtime_Semrelease m, Inr (f\<lparr>pc := Returned\<rparr>, [Semrelease]))
      | Unlock_Load \<Rightarrow> (m, Unlock_iteration f (state m) [])
      | Returned \<Rightarrow> (m, Inr (f, []))
      | Panicked \<Rightarrow> (m, Inr (f, [])))"

subsection \<open>A call running to its end\<close>

text \<open>
  \<open>run sch m f evs\<close> lets one goroutine take its steps in turn until its call has
  returned or panicked. Each entry of \<open>sch\<close> is the runtime at that step and what the
  other goroutines did to the Mutex since the previous step; the identity is the
  uncontended case. The list is also the fuel: Lock may loop or stay parked for ever,
  and a run that has used up \<open>sch\<close> stops inside the call, at a control point other
  than \<open>Returned\<close>.
\<close>

fun run :: "(runtime \<times> (Mutex \<Rightarrow> Mutex)) list \<Rightarrow> Mutex \<Rightarrow> frame \<Rightarrow> event list
              \<Rightarrow> Mutex \<times> (error + frame \<times> event list)" where
  "run [] m f evs = (m, Inr (f, evs))"
| "run ((rt, env) # rest) m f evs =
     (if pc f = Returned then (m, Inr (f, evs))
      else case step rt (env m) f of
             (m', Inl e) \<Rightarrow> (m', Inl e)
           | (m', Inr (f', evs')) \<Rightarrow> run rest m' f' (evs @ evs'))"

definition Lock :: "(runtime \<times> (Mutex \<Rightarrow> Mutex)) list \<Rightarrow> Mutex \<Rightarrow> Mutex \<times> (error + frame \<times> event list)" where
  "Lock sch m = run sch m enter_Lock []"

definition Unlock :: "(runtime \<times> (Mutex \<Rightarrow> Mutex)) list \<Rightarrow> Mutex \<Rightarrow> Mutex \<times> (error + frame \<times> event list)" where
  "Unlock sch m = run sch m enter_Unlock []"

text \<open>The events of a run; the model keeps none for a call that panicked.\<close>

definition events_of :: "Mutex \<times> (error + frame \<times> event list) \<Rightarrow> event list" where
  "events_of r = (case snd r of Inl e \<Rightarrow> [] | Inr (f, evs) \<Rightarrow> evs)"

text \<open>The call has returned (it neither panicked nor is still inside).\<close>

definition returned :: "Mutex \<times> (error + frame \<times> event list) \<Rightarrow> bool" where
  "returned r = (case snd r of Inl e \<Rightarrow> False | Inr (f, evs) \<Rightarrow> pc f = Returned)"

definition panicked :: "Mutex \<times> (error + frame \<times> event list) \<Rightarrow> string \<Rightarrow> bool" where
  "panicked r msg = (case snd r of Inl e \<Rightarrow> e = Panic msg | Inr (f, evs) \<Rightarrow> False)"

subsection \<open>Goroutines sharing one Mutex\<close>

text \<open>
  Any number of goroutines interleave their atomic steps on one Mutex; every access
  takes effect at once, in the order of the schedule. A goroutine that is outside a
  call may call Lock or Unlock at any time: the Mutex records no owner, and mutex.go:105
  allows one goroutine to lock it and another to unlock it. A goroutine whose call
  panicked may go on (the panic can be recovered); a program that aborts instead simply
  takes no further step.

  \<open>holders\<close> is an auxiliary variable, read by no step: the goroutines whose Lock has
  returned and has not been undone by an Unlock since. An Unlock that gets past its
  check at line 116 has unlocked the Mutex for whoever locked it.
\<close>

record system =
  mutex :: Mutex
  goroutines :: "frame list"
  holders :: "nat list"

datatype action =
    Call_Lock nat          \<comment> \<open>goroutine \<open>g\<close> calls \<^verbatim>\<open>m.Lock()\<close>\<close>
  | Call_Unlock nat        \<comment> \<open>goroutine \<open>g\<close> calls \<^verbatim>\<open>m.Unlock()\<close>\<close>
  | Run nat runtime        \<comment> \<open>goroutine \<open>g\<close> takes one atomic step\<close>

definition outside :: "frame \<Rightarrow> bool" where
  "outside f = (pc f = Returned \<or> pc f = Panicked)"

definition acquires :: "frame \<Rightarrow> frame \<Rightarrow> bool" where
  "acquires f f' = ((pc f = Lock_FastCAS \<or> pc f = Lock_CAS) \<and> pc f' = Returned)"

definition sys_step :: "action \<Rightarrow> system \<Rightarrow> system" where
  "sys_step a s =
     (case a of
        Call_Lock g \<Rightarrow>
          if g < length (goroutines s) \<and> outside (goroutines s ! g)
          then s\<lparr>goroutines := (goroutines s)[g := enter_Lock]\<rparr> else s
      | Call_Unlock g \<Rightarrow>
          if g < length (goroutines s) \<and> outside (goroutines s ! g)
          then s\<lparr>goroutines := (goroutines s)[g := enter_Unlock]\<rparr> else s
      | Run g rt \<Rightarrow>
          if g < length (goroutines s) then
            (let f = goroutines s ! g in
             case step rt (mutex s) f of
               (m', Inl e) \<Rightarrow>
                 s\<lparr>mutex := m', goroutines := (goroutines s)[g := f\<lparr>pc := Panicked\<rparr>]\<rparr>
             | (m', Inr (f', evs)) \<Rightarrow>
                 s\<lparr>mutex := m', goroutines := (goroutines s)[g := f'],
                   holders := (if acquires f f' then g # holders s
                               else if pc f = Unlock_Add then []
                               else holders s)\<rparr>)
          else s)"

definition init :: "nat \<Rightarrow> system" where
  "init n = \<lparr>mutex = zero_Mutex,
             goroutines = replicate n \<lparr>pc = Returned, awoke = False, iter = 0, old = 0, new = 0\<rparr>,
             holders = []\<rparr>"

fun execute :: "action list \<Rightarrow> system \<Rightarrow> system" where
  "execute [] s = s"
| "execute (a # as) s = execute as (sys_step a s)"

text \<open>Two runtimes for concrete runs: an advisor that never approves of spinning, and
  one that approves four times (\<open>active_spin\<close>, see the comment at mutex.go:57).\<close>

definition no_spin :: runtime where
  "no_spin = \<lparr>runtime_canSpin = (\<lambda>i. False), raceenabled = False\<rparr>"

definition spin4 :: runtime where
  "spin4 = \<lparr>runtime_canSpin = (\<lambda>i. i < 4), raceenabled = False\<rparr>"

text \<open>Lock and then Unlock by a single goroutine with nobody else running.\<close>

definition Lock_Unlock :: "runtime \<Rightarrow> Mutex \<Rightarrow> Mutex" where
  "Lock_Unlock rt m = fst (Unlock [(rt, id)] (fst (Lock [(rt, id)] m)))"

text \<open>The action is a step in which the goroutine panics.\<close>

definition fatal :: "action \<Rightarrow> system \<Rightarrow> bool" where
  "fatal a s =
     (case a of
        Run g rt \<Rightarrow> g < length (goroutines s) \<and> isl (snd (step rt (mutex s) (goroutines s ! g)))
      | _ \<Rightarrow> False)"

subsection \<open>Invariants\<close>

text \<open>
  What holds of the locals at the three CAS control points, whatever the other
  goroutines do: the value that line 67 and line 129 expect has waiters; the \<open>new\<close> of
  line 85 carries the locked bit, and the woken bit only if \<open>old\<close> does; the \<open>old\<close> and
  \<open>new\<close> of line 129 have the locked bit clear.
\<close>

definition frame_ok :: "frame \<Rightarrow> bool" where
  "frame_ok f =
     (case pc f of
        Lock_SpinCAS \<Rightarrow> waiters (old f) \<noteq> 0
      | Lock_CAS \<Rightarrow> odd (new f) \<and> (bit (new f) (Suc 0) \<longrightarrow> bit (old f) (Suc 0))
      | Unlock_CAS \<Rightarrow> waiters (old f) \<noteq> 0 \<and> even (old f) \<and> even (new f)
      | _ \<Rightarrow> True)"

text \<open>
  The invariant of the whole system: every goroutine's locals are as above, and a
  holder exists only while the locked bit is set, and then it is the only one.
\<close>

definition sys_inv :: "system \<Rightarrow> bool" where
  "sys_inv s \<longleftrightarrow>
     list_all frame_ok (goroutines s) \<and>
     (holders s = [] \<or> (length (holders s) = 1 \<and> odd (state (mutex s))))"

text \<open>
  Control points of Unlock after the check of line 116 (with \<open>Returned\<close>), and the
  control points of Unlock before \<^verbatim>\<open>runtime_Semrelease\<close> has been called.
\<close>

definition in_wake_loop :: "frame \<Rightarrow> bool" where
  "in_wake_loop f \<longleftrightarrow> pc f = Unlock_CAS \<or> pc f = Unlock_Semrelease \<or> pc f = Unlock_Load \<or> pc f = Returned"

definition releases :: "event list \<Rightarrow> nat" where
  "releases evs = count_list evs Semrelease"

definition before_release :: "frame \<Rightarrow> bool" where
  "before_release f \<longleftrightarrow> pc f = Unlock_Add \<or> pc f = Unlock_CAS \<or> pc f = Unlock_Load \<or> pc f = Unlock_Semrelease"

subsection \<open>Concrete runs\<close>

text \<open>
  Two goroutines: 0 takes the lock on the fast path; 1 fails the fast path, registers
  as a waiter and parks; 0 unlocks and wakes it; 1 takes the lock.
\<close>

definition two_contenders :: "action list" where
  "two_contenders =
     [Call_Lock 0, Run 0 spin4, Call_Lock 1, Run 1 spin4, Run 1 no_spin, Run 1 no_spin,
      Call_Unlock 0, Run 0 no_spin, Run 0 no_spin, Run 0 no_spin, Run 1 no_spin,
      Run 1 no_spin, Run 1 no_spin]"

text \<open>
  The same two goroutines up to the moment at which goroutine 0, unlocking, has won the
  CAS of line 129 for the only waiter.
\<close>

definition wake_last_waiter :: "action list" where
  "wake_last_waiter =
     [Call_Lock 0, Run 0 no_spin, Call_Lock 1, Run 1 no_spin, Run 1 no_spin, Run 1 no_spin,
      Call_Unlock 0, Run 0 no_spin, Run 0 no_spin]"

section \<open>Properties\<close>

lemmas prims = CompareAndSwapInt32_def AddInt32_def runtime_Semacquire_def runtime_Semrelease_def

subsection \<open>The three fields of the state word\<close>

text \<open>
  The locked bit of a word is its parity and the woken bit is its bit 1; adding or
  subtracting a waiter (4) touches neither, also when the addition wraps around.
\<close>

lemma mutexLocked_eq: "mutexLocked = 1"
  by (simp add: mutexLocked_def)

lemma mutexWoken_eq: "mutexWoken = 2"
  by (simp add: mutexWoken_def)

lemma or_flags_eq: "mutexLocked OR mutexWoken = 3"
  by (simp add: mutexLocked_eq mutexWoken_eq)

lemmas consts_eq = mutexLocked_eq mutexWoken_eq or_flags_eq mutexWaiterShift_def

lemma locked_test: "(x :: int32) AND 1 = 0 \<longleftrightarrow> even x"
  by (simp add: and_one_eq mod_2_eq_odd)

lemma woken_test: "(x :: int32) AND 2 = 0 \<longleftrightarrow> \<not> bit x (Suc 0)"
  using and_exp_eq_0_iff_not_bit [of x 1] by simp

lemma flags_test: "(x :: int32) AND 3 = 0 \<longleftrightarrow> even x \<and> \<not> bit x (Suc 0)"
proof -
  have "(3 :: int32) = 1 OR 2"
    by simp
  then have "x AND 3 = (x AND 1) OR (x AND 2)"
    by (simp only: bit.conj_disj_distrib)
  then show ?thesis
    by (simp only: or_eq_0_iff locked_test woken_test)
qed

lemma even_or_locked: "even ((x :: int32) OR 1) = False"
  by (simp add: even_or_iff)

lemma even_or_woken: "even ((x :: int32) OR 2) = even x"
  by (simp add: even_or_iff)

lemma even_clear_woken: "even ((x :: int32) AND - 3) = even x"
  by (simp add: even_and_iff)

lemma int_bit1_add4: "bit ((k :: int) + 4) (Suc 0) = bit k (Suc 0)"
proof -
  have "take_bit 2 (k + 4) = take_bit 2 (take_bit 2 k + take_bit 2 (4 :: int))"
    by (simp only: take_bit_add)
  also have "take_bit 2 (4 :: int) = 0"
    by (simp add: take_bit_eq_mod)
  finally have "take_bit 2 (k + 4) = take_bit 2 k"
    by simp
  then have "bit (take_bit 2 (k + 4)) (Suc 0) = bit (take_bit 2 k) (Suc 0)"
    by (simp only:)
  then show ?thesis
    by (simp add: bit_take_bit_iff)
qed

lemma woken_add_waiter: "bit ((x :: int32) + 4) (Suc 0) = bit x (Suc 0)"
  by transfer (simp add: int_bit1_add4)

lemma woken_or_locked: "bit ((x :: int32) OR 1) (Suc 0) = bit x (Suc 0)"
  by (simp add: bit_or_iff bit_1_iff)

lemma woken_or_woken: "bit ((x :: int32) OR 2) (Suc 0) = True"
  by (simp add: bit_simps)

lemma woken_clear_woken: "bit ((x :: int32) AND - 3) (Suc 0) = False"
proof -
  have "(- 3 :: int32) = NOT 2"
    by simp
  then have "bit (x AND - 3) (Suc 0) = bit (x AND NOT 2) (Suc 0)"
    by (simp only:)
  then show ?thesis
    by (simp add: bit_simps)
qed

lemma woken_sub_locked: "odd (x :: int32) \<Longrightarrow> bit (x - 1) (Suc 0) = bit x (Suc 0)"
  using odd_bit_iff_bit_pred [of x "Suc 0"] by simp

lemma waiters_or_woken: "signed_drop_bit 2 ((x :: int32) OR 2) = signed_drop_bit 2 x"
  by (rule bit_word_eqI) (auto simp: bit_simps)

lemmas state_bits =
  consts_eq locked_test woken_test flags_test even_or_locked even_or_woken even_clear_woken
  woken_add_waiter woken_or_locked woken_clear_woken woken_or_woken woken_sub_locked


subsection \<open>The locals at the CAS control points\<close>

lemma Lock_iteration_ok:
  "Lock_iteration rt f x = Inr (f', evs) \<Longrightarrow> frame_ok f'"
  by (auto simp: Lock_iteration_def Let_def frame_ok_def waiters_def state_bits
      split: if_splits)

lemma Unlock_iteration_ok:
  "Unlock_iteration f x evs0 = Inr (f', evs) \<Longrightarrow> frame_ok f'"
  by (auto simp: Unlock_iteration_def frame_ok_def waiters_def state_bits
      split: if_splits)

lemma step_frame_ok:
  "step rt m f = (m', Inr (f', evs)) \<Longrightarrow> frame_ok f \<Longrightarrow> frame_ok f'"
  by (cases "pc f")
     (auto simp: step_def CompareAndSwapInt32_def AddInt32_def runtime_Semacquire_def 
        frame_ok_def [of "_\<lparr>pc := _\<rparr>"] frame_ok_def [of "_\<lparr>pc := _, awoke := _ , iter := _\<rparr>"]
        frame_ok_def [of "_\<lparr>pc := _, iter := _\<rparr>"]
        dest: Lock_iteration_ok Unlock_iteration_ok
        split: if_splits)

lemma Lock_iteration_pc:
  "Lock_iteration rt f x = Inr (f', evs) \<Longrightarrow> pc f' \<noteq> Returned"
  by (auto simp: Lock_iteration_def Let_def split: if_splits)

lemma step_locked_bit:
  assumes "step rt m f = (m', Inr (f', evs))" and "frame_ok f"
  shows "if acquires f f' then even (state m) \<and> odd (state m')
         else if pc f = Unlock_Add then odd (state m) \<and> even (state m')
         else even (state m') = even (state m)"
  using assms
  by (cases "pc f")
     (auto simp: step_def CompareAndSwapInt32_def AddInt32_def runtime_Semacquire_def 
        runtime_Semrelease_def acquires_def frame_ok_def state_bits
        dest: Lock_iteration_pc
        split: if_splits)

lemma step_panic_locked_bit:
  assumes "step rt m f = (m', Inl e)"
  shows "m' = m \<or> (even (state m) \<and> odd (state m'))"
  using assms
  by (cases "pc f")
     (auto simp: step_def CompareAndSwapInt32_def AddInt32_def runtime_Semacquire_def 
        runtime_Semrelease_def Unlock_iteration_def state_bits
        split: if_splits)

subsection \<open>The locked bit and the holders\<close>

lemma frames_update_ok:
  assumes "list_all frame_ok fs" and "frame_ok f'"
  shows "list_all frame_ok (fs[g := f'])"
  using assms set_update_subset_insert [of fs g f'] by (auto simp: list_all_iff)

lemma frame_ok_enter: "frame_ok enter_Lock" "frame_ok enter_Unlock"
  by (simp_all add: frame_ok_def enter_Lock_def enter_Unlock_def)

lemma sys_inv_init: "sys_inv (init n)"
  by (simp add: sys_inv_def init_def frame_ok_def list_all_iff)

lemma sys_inv_call:
  assumes "sys_inv s" and "frame_ok f'"
  shows "sys_inv (s\<lparr>goroutines := (goroutines s)[g := f']\<rparr>)"
proof -
  have "list_all frame_ok ((goroutines s)[g := f'])"
    using assms by (intro frames_update_ok) (simp_all add: sys_inv_def)
  then show ?thesis
    using assms(1) by (simp add: sys_inv_def)
qed

lemma sys_inv_run:
  assumes inv: "sys_inv s" and g: "g < length (goroutines s)"
  shows "sys_inv (sys_step (Run g rt) s)"
proof -
  define f where "f = goroutines s ! g"
  have frames: "list_all frame_ok (goroutines s)"
    using inv by (simp add: sys_inv_def)
  then have f_ok: "frame_ok f"
    using g by (simp add: f_def list_all_length)
  have hold: "holders s = [] \<or> (length (holders s) = 1 \<and> odd (state (mutex s)))"
    using inv by (simp add: sys_inv_def)
  obtain m' r where st: "step rt (mutex s) f = (m', r)"
    by (cases "step rt (mutex s) f")
  show ?thesis
  proof (cases r)
    case (Inl e)
    have bits: "m' = mutex s \<or> (even (state (mutex s)) \<and> odd (state m'))"
      using st Inl step_panic_locked_bit by blast
    have step_eq: "sys_step (Run g rt) s =
        s\<lparr>mutex := m', goroutines := (goroutines s)[g := f\<lparr>pc := Panicked\<rparr>]\<rparr>"
      using g st Inl by (simp add: sys_step_def f_def [symmetric])
    have "frame_ok (f\<lparr>pc := Panicked\<rparr>)"
      by (simp add: frame_ok_def)
    with frames have "list_all frame_ok ((goroutines s)[g := f\<lparr>pc := Panicked\<rparr>])"
      by (rule frames_update_ok)
    moreover have "holders s = [] \<or> (length (holders s) = 1 \<and> odd (state m'))"
      using hold bits by auto
    ultimately show ?thesis
      unfolding step_eq sys_inv_def by simp
  next
    case (Inr p)
    obtain f' evs where p: "p = (f', evs)"
      by (cases p)
    have st': "step rt (mutex s) f = (m', Inr (f', evs))"
      using st Inr p by simp
    have "frame_ok f'"
      using st' f_ok by (rule step_frame_ok)
    with frames have frames': "list_all frame_ok ((goroutines s)[g := f'])"
      by (rule frames_update_ok)
    have bits: "if acquires f f' then even (state (mutex s)) \<and> odd (state m')
         else if pc f = Unlock_Add then odd (state (mutex s)) \<and> even (state m')
         else even (state m') = even (state (mutex s))"
      using st' f_ok by (rule step_locked_bit)
    have step_eq: "sys_step (Run g rt) s =
        s\<lparr>mutex := m', goroutines := (goroutines s)[g := f'],
          holders := (if acquires f f' then g # holders s
                      else if pc f = Unlock_Add then [] else holders s)\<rparr>"
      using g st' by (simp add: sys_step_def f_def [symmetric])
    show ?thesis
      unfolding step_eq sys_inv_def using frames' bits hold
      by (auto split: if_splits)
  qed
qed

lemma sys_inv_step:
  assumes "sys_inv s"
  shows "sys_inv (sys_step a s)"
proof (cases a)
  case (Call_Lock g)
  then show ?thesis
    using assms sys_inv_call [OF assms frame_ok_enter(1), of g] by (simp add: sys_step_def)
next
  case (Call_Unlock g)
  then show ?thesis
    using assms sys_inv_call [OF assms frame_ok_enter(2), of g] by (simp add: sys_step_def)
next
  case (Run g rt)
  show ?thesis
  proof (cases "g < length (goroutines s)")
    case True
    then show ?thesis
      using assms Run sys_inv_run by simp
  next
    case False
    then show ?thesis
      using assms Run by (simp add: sys_step_def)
  qed
qed

lemma sys_inv_execute: "sys_inv s \<Longrightarrow> sys_inv (execute sched s)"
  by (induction sched arbitrary: s) (simp_all add: sys_inv_step)

text \<open>
  C1 (mutual exclusion). Whatever calls of Lock and Unlock any number of goroutines
  make on one Mutex, and however their atomic steps interleave, at most one goroutine
  holds the lock at any moment, and while one holds it the locked bit is set.
\<close>

theorem mutual_exclusion:
  "length (holders (execute sched (init n))) \<le> 1 \<and>
   (holders (execute sched (init n)) = [] \<or>
    state (mutex (execute sched (init n))) AND mutexLocked \<noteq> 0)"
  using sys_inv_execute [OF sys_inv_init, of sched n]
  by (auto simp: sys_inv_def state_bits)

theorem mutual_exclusion_witness:
  "holders (execute two_contenders (init 2)) = [1] \<and>
   length (holders (execute two_contenders (init 2))) \<le> 1 \<and>
   state (mutex (execute two_contenders (init 2))) AND mutexLocked \<noteq> 0"
proof -
  have h: "holders (execute two_contenders (init 2)) = [1]"
    by code_simp
  have "length (holders (execute two_contenders (init 2))) \<le> 1"
    and "holders (execute two_contenders (init 2)) = [] \<or>
         state (mutex (execute two_contenders (init 2))) AND mutexLocked \<noteq> 0"
    using mutual_exclusion [of two_contenders 2] by blast+
  with h show ?thesis
    by simp
qed

subsection \<open>Lock: the fast path\<close>

lemma run_Returned: "pc f = Returned \<Longrightarrow> run sch m f evs = (m, Inr (f, evs))"
  by (cases sch) auto

lemma step_enter_Lock:
  "step rt m enter_Lock =
     (if state m = 0 then (m\<lparr>state := mutexLocked\<rparr>, Inr (enter_Lock\<lparr>pc := Returned\<rparr>, race_acquire rt))
      else (m, Inr (enter_Lock\<lparr>pc := Lock_Load\<rparr>, [])))"
  by (simp add: step_def enter_Lock_def CompareAndSwapInt32_def)

lemma race_events:
  "DoSpin \<notin> set (race_acquire rt)" "Semacquire \<notin> set (race_acquire rt)"
  "Semrelease \<notin> set (race_acquire rt)" "DoSpin \<notin> set (race_release rt)"
  "Semacquire \<notin> set (race_release rt)" "Semrelease \<notin> set (race_release rt)"
  by (simp_all add: race_acquire_def race_release_def)

lemma pc_enter [simp]: "pc enter_Lock = Lock_FastCAS" "pc enter_Unlock = Unlock_Add"
  by (simp_all add: enter_Lock_def enter_Unlock_def)

lemma Lock_unfold:
  "Lock ((rt, env) # rest) m =
     (case step rt (env m) enter_Lock of
        (m', Inl e) \<Rightarrow> (m', Inl e)
      | (m', Inr (f', evs')) \<Rightarrow> run rest m' f' evs')"
  by (simp add: Lock_def)

lemma Lock_on_free:
  assumes "state (env m) = 0"
  shows "Lock ((rt, env) # rest) m =
      ((env m)\<lparr>state := mutexLocked\<rparr>, Inr (enter_Lock\<lparr>pc := Returned\<rparr>, race_acquire rt))"
  using assms by (simp add: Lock_unfold step_enter_Lock run_Returned)

text \<open>
  C2 (fast path). Lock first performs one CAS of \<open>state\<close> from 0 to the locked bit.
  If \<open>state\<close> is 0 at that CAS, the CAS succeeds, Lock has returned after this one
  step with \<open>state\<close> equal to the locked bit, and there was no spin step, no change of
  the waiter count and no semaphore call.
\<close>

theorem Lock_fast_path:
  assumes "state (env m) = 0"
  shows "fst (step rt (env m) enter_Lock) = snd (CompareAndSwapInt32 (env m) 0 mutexLocked) \<and>
         fst (CompareAndSwapInt32 (env m) 0 mutexLocked) \<and>
         Lock ((rt, env) # rest) m =
           ((env m)\<lparr>state := mutexLocked\<rparr>, Inr (enter_Lock\<lparr>pc := Returned\<rparr>, race_acquire rt)) \<and>
         returned (Lock ((rt, env) # rest) m) \<and>
         DoSpin \<notin> set (events_of (Lock ((rt, env) # rest) m)) \<and>
         Semacquire \<notin> set (events_of (Lock ((rt, env) # rest) m)) \<and>
         Semrelease \<notin> set (events_of (Lock ((rt, env) # rest) m)) \<and>
         waiters (state (fst (Lock ((rt, env) # rest) m))) = waiters (state (env m)) \<and>
         sema (fst (Lock ((rt, env) # rest) m)) = sema (env m)"
proof -
  have L: "Lock ((rt, env) # rest) m =
      ((env m)\<lparr>state := mutexLocked\<rparr>, Inr (enter_Lock\<lparr>pc := Returned\<rparr>, race_acquire rt))"
    using assms by (rule Lock_on_free)
  have W: "waiters mutexLocked = waiters 0"
    by (simp add: waiters_def consts_eq)
  show ?thesis
    unfolding L using assms W
    by (simp add: step_enter_Lock CompareAndSwapInt32_def returned_def events_of_def race_events)
qed

theorem Lock_fast_path_witness:
  "state (id zero_Mutex) = 0 \<and>
   Lock [(no_spin, id)] zero_Mutex = (\<lparr>state = 1, sema = 0\<rparr>, Inr (enter_Lock\<lparr>pc := Returned\<rparr>, []))"
proof -
  have z: "state (id zero_Mutex) = 0"
    by (simp add: zero_Mutex_def)
  have "Lock ((no_spin, id) # []) zero_Mutex =
      ((id zero_Mutex)\<lparr>state := mutexLocked\<rparr>, Inr (enter_Lock\<lparr>pc := Returned\<rparr>, race_acquire no_spin))"
    using Lock_fast_path [of id zero_Mutex no_spin "[]"] z by blast
  then show ?thesis
    by (simp add: zero_Mutex_def mutexLocked_eq race_acquire_def no_spin_def)
qed


subsection \<open>Unlock: the subtraction and the fatal check\<close>

lemma step_enter_Unlock:
  "step rt m enter_Unlock =
     (if state m AND mutexLocked = 0
      then (m\<lparr>state := state m - mutexLocked\<rparr>, Inl (Panic ''sync: unlock of unlocked mutex''))
      else (m\<lparr>state := state m - mutexLocked\<rparr>,
            Unlock_iteration (enter_Unlock\<lparr>new := state m - mutexLocked\<rparr>)
              (state m - mutexLocked) (race_release rt)))"
  by (simp add: step_def enter_Unlock_def AddInt32_def)

lemma Unlock_unfold:
  "Unlock ((rt, env) # rest) m =
     (case step rt (env m) enter_Unlock of
        (m', Inl e) \<Rightarrow> (m', Inl e)
      | (m', Inr (f', evs')) \<Rightarrow> run rest m' f' evs')"
  by (simp add: Unlock_def)

lemma Unlock_iteration_wake:
  "\<exists>f' . Unlock_iteration f x evs = Inr (f', evs) \<and> in_wake_loop f'"
  by (simp add: Unlock_iteration_def in_wake_loop_def)

lemma step_wake_loop:
  assumes "in_wake_loop f"
  shows "\<exists>m' f' evs. step rt m f = (m', Inr (f', evs)) \<and> in_wake_loop f'"
  using assms Unlock_iteration_wake [of f "state m" "[]"]
  by (auto simp: in_wake_loop_def step_def prims)

lemma run_wake_loop:
  "in_wake_loop f \<Longrightarrow> \<exists>m' f' evs'. run sch m f evs = (m', Inr (f', evs'))"
proof (induction sch arbitrary: m f evs)
  case Nil
  then show ?case by simp
next
  case (Cons a sch)
  obtain rt env where a: "a = (rt, env)"
    by (cases a)
  obtain m' f' evs' where st: "step rt (env m) f = (m', Inr (f', evs'))" and "in_wake_loop f'"
    using step_wake_loop [OF Cons.prems] by blast
  then show ?case
    using Cons.IH [of f' m' "evs @ evs'"] a by simp
qed

lemma Unlock_panics_iff:
  "panicked (Unlock ((rt, env) # rest) m) msg \<longleftrightarrow>
     state (env m) AND mutexLocked = 0 \<and> msg = ''sync: unlock of unlocked mutex''"
proof (cases "state (env m) AND mutexLocked = 0")
  case True
  then show ?thesis
    by (auto simp: Unlock_unfold step_enter_Unlock panicked_def)
next
  case False
  obtain f' where it: "Unlock_iteration (enter_Unlock\<lparr>new := state (env m) - mutexLocked\<rparr>)
              (state (env m) - mutexLocked) (race_release rt) = Inr (f', race_release rt)"
    and "in_wake_loop f'"
    using Unlock_iteration_wake by blast
  then obtain m2 f2 evs2 where
    "run rest ((env m)\<lparr>state := state (env m) - mutexLocked\<rparr>) f' (race_release rt) = (m2, Inr (f2, evs2))"
    using run_wake_loop by blast
  then show ?thesis
    using False it by (simp add: Unlock_unfold step_enter_Unlock panicked_def)
qed

lemma Unlock_on_locked:
  assumes "state (env m) = mutexLocked"
  shows "Unlock ((rt, env) # rest) m =
      ((env m)\<lparr>state := 0\<rparr>,
       Inr (enter_Unlock\<lparr>pc := Returned, old := 0, new := 0\<rparr>, race_release rt))"
  using assms
  by (simp add: Unlock_unfold step_enter_Unlock Unlock_iteration_def run_Returned)
     (simp add: state_bits)

text \<open>
  C3 (unlock of an unlocked mutex). The first step of Unlock subtracts the locked bit
  from \<open>state\<close>, whatever it is. A call of Unlock panics with
  "sync: unlock of unlocked mutex" exactly when the locked bit was clear in the state that
  this subtraction met, however long the call goes on and whatever the other goroutines
  do meanwhile. Unlock on the zero Mutex panics so, and after one Lock the first Unlock
  returns and the second one panics so.
\<close>

theorem Unlock_of_unlocked:
  "fst (step rt m enter_Unlock) = m\<lparr>state := state m - mutexLocked\<rparr> \<and>
   (panicked (Unlock ((rt, env) # rest) m) ''sync: unlock of unlocked mutex''
      \<longleftrightarrow> state (env m) AND mutexLocked = 0) \<and>
   panicked (Unlock [(rt, id)] zero_Mutex) ''sync: unlock of unlocked mutex'' \<and>
   returned (Lock [(rt, id)] zero_Mutex) \<and>
   returned (Unlock [(rt, id)] (fst (Lock [(rt, id)] zero_Mutex))) \<and>
   panicked (Unlock [(rt, id)] (fst (Unlock [(rt, id)] (fst (Lock [(rt, id)] zero_Mutex)))))
     ''sync: unlock of unlocked mutex''"
proof -
  have L: "Lock [(rt, id)] zero_Mutex =
      (\<lparr>state = 1, sema = 0\<rparr>, Inr (enter_Lock\<lparr>pc := Returned\<rparr>, race_acquire rt))"
    using Lock_on_free [of id zero_Mutex rt "[]"] by (simp add: zero_Mutex_def mutexLocked_eq)
  have U: "Unlock [(rt, id)] \<lparr>state = 1, sema = 0\<rparr> =
      (\<lparr>state = 0, sema = 0\<rparr>, Inr (enter_Unlock\<lparr>pc := Returned\<rparr>, race_release rt))"
    by (simp add: Unlock_unfold step_enter_Unlock Unlock_iteration_def state_bits)
       (simp add: enter_Unlock_def)
  show ?thesis
    unfolding Unlock_panics_iff L
    by (simp add: U step_enter_Unlock returned_def zero_Mutex_def state_bits)
qed

theorem Unlock_of_unlocked_witness:
  "fst (step no_spin zero_Mutex enter_Unlock) = \<lparr>state = - 1, sema = 0\<rparr> \<and>
   panicked (Unlock [(no_spin, id)] zero_Mutex) ''sync: unlock of unlocked mutex'' \<and>
   state (id zero_Mutex) AND mutexLocked = 0 \<and>
   \<not> panicked (Unlock [(no_spin, id)] \<lparr>state = 5, sema = 0\<rparr>) ''sync: unlock of unlocked mutex'' \<and>
   state (id \<lparr>state = 5, sema = 0\<rparr>) AND mutexLocked \<noteq> 0"
proof -
  have locked: "state (id \<lparr>state = 5, sema = 0\<rparr>) AND mutexLocked \<noteq> 0"
    by (simp add: mutexLocked_eq)
  have "\<not> panicked (Unlock [(no_spin, id)] \<lparr>state = 5, sema = 0\<rparr>) ''sync: unlock of unlocked mutex''"
    using Unlock_of_unlocked [of no_spin "\<lparr>state = 5, sema = 0\<rparr>" id "[]"] locked by blast
  moreover have "fst (step no_spin zero_Mutex enter_Unlock) = zero_Mutex\<lparr>state := state zero_Mutex - mutexLocked\<rparr>"
    and "panicked (Unlock [(no_spin, id)] zero_Mutex) ''sync: unlock of unlocked mutex''"
    using Unlock_of_unlocked [of no_spin zero_Mutex id "[]"] by blast+
  ultimately show ?thesis
    using locked by (simp add: zero_Mutex_def mutexLocked_eq)
qed

text \<open>
  C10 (the fatal path is not atomic). When Unlock panics with
  "sync: unlock of unlocked mutex", the Mutex it leaves behind has the locked bit's
  weight subtracted from \<open>state\<close>: the state differs from the one the call met, and
  nothing restores it. \<open>sema\<close> is untouched.
\<close>

theorem Unlock_fatal_leaves_state_changed:
  assumes "panicked (Unlock ((rt, env) # rest) m) ''sync: unlock of unlocked mutex''"
  shows "state (fst (Unlock ((rt, env) # rest) m)) = state (env m) - mutexLocked \<and>
         state (fst (Unlock ((rt, env) # rest) m)) \<noteq> state (env m) \<and>
         sema (fst (Unlock ((rt, env) # rest) m)) = sema (env m)"
proof -
  have "state (env m) AND mutexLocked = 0"
    using assms by (simp add: Unlock_panics_iff)
  then show ?thesis
    by (simp add: Unlock_unfold step_enter_Unlock mutexLocked_eq)
qed

theorem Unlock_fatal_leaves_state_changed_witness:
  "panicked (Unlock [(no_spin, id)] zero_Mutex) ''sync: unlock of unlocked mutex'' \<and>
   state (fst (Unlock [(no_spin, id)] zero_Mutex)) = - 1 \<and>
   state (fst (Unlock [(no_spin, id)] zero_Mutex)) \<noteq> state zero_Mutex"
proof -
  have h: "panicked (Unlock [(no_spin, id)] zero_Mutex) ''sync: unlock of unlocked mutex''"
    by code_simp
  show ?thesis
    using Unlock_fatal_leaves_state_changed [OF h] h
    by (simp add: zero_Mutex_def mutexLocked_eq)
qed


subsection \<open>Unlock: the wake loop\<close>

lemma Unlock_iteration_cases:
  "Unlock_iteration f x evs =
     (if waiters x = 0 \<or> x AND mutexWoken \<noteq> 0 \<or> x AND mutexLocked \<noteq> 0
      then Inr (f\<lparr>pc := Returned, old := x\<rparr>, evs)
      else Inr (f\<lparr>pc := Unlock_CAS, old := x,
                  new := (x - push_bit mutexWaiterShift 1) OR mutexWoken\<rparr>, evs))"
  by (auto simp: Unlock_iteration_def waiters_def state_bits)

lemma releases_append [simp]: "releases (xs @ ys) = releases xs + releases ys"
  by (simp add: releases_def)

lemma releases_race [simp]: "releases (race_release rt) = 0" "releases [] = 0" "releases [Semrelease] = 1"
  by (simp_all add: releases_def race_release_def)

lemma events_of_simps [simp]:
  "events_of (m, Inl e) = []" "events_of (m, Inr (f, evs)) = evs"
  by (simp_all add: events_of_def)

lemma step_before_release:
  assumes "before_release f" and "step rt m f = (m', Inr (f', evs))"
  shows "if pc f = Unlock_Semrelease then pc f' = Returned \<and> releases evs = 1
         else (before_release f' \<or> pc f' = Returned) \<and> releases evs = 0"
  using assms
  by (auto simp: before_release_def step_def prims Unlock_iteration_def split: if_splits)

lemma run_releases:
  "before_release f \<Longrightarrow> releases (events_of (run sch m f evs)) \<le> releases evs + 1"
proof (induction sch arbitrary: m f evs)
  case Nil
  then show ?case by simp
next
  case (Cons a sch)
  obtain rt env where a: "a = (rt, env)"
    by (cases a)
  have not_ret: "pc f \<noteq> Returned"
    using Cons.prems by (auto simp: before_release_def)
  obtain m' r where st: "step rt (env m) f = (m', r)"
    by (cases "step rt (env m) f")
  show ?case
  proof (cases r)
    case (Inl e)
    then show ?thesis
      using a st not_ret by simp
  next
    case (Inr p)
    obtain f' evs' where p: "p = (f', evs')"
      by (cases p)
    have st': "step rt (env m) f = (m', Inr (f', evs'))"
      using st Inr p by simp
    have unfold: "run (a # sch) m f evs = run sch m' f' (evs @ evs')"
      using a st' not_ret by simp
    note facts = step_before_release [OF Cons.prems st']
    show ?thesis
    proof (cases "pc f' = Returned")
      case True
      then show ?thesis
        using facts unfold by (auto simp: run_Returned split: if_splits)
    next
      case False
      then have "before_release f'" and "releases evs' = 0"
        using facts by (auto split: if_splits)
      then show ?thesis
        using Cons.IH [of f' m' "evs @ evs'"] unfold by simp
    qed
  qed
qed

text \<open>
  C4 (wake loop). At the head of the wake loop, for every value of \<open>old\<close> (the result of
  the subtraction the first time, the state read at line 134 afterwards): if the waiter
  count is zero, or the woken bit or the locked bit is set, Unlock returns and has not
  called the semaphore; otherwise it goes on to the CAS from \<open>old\<close> to \<open>old\<close> minus one
  waiter with the woken bit set. When that CAS succeeds the next step is the one call of
  \<^verbatim>\<open>runtime_Semrelease\<close>, and then Unlock has returned; when it fails the state is read
  again. In any run of one Unlock call, among any other goroutines, the semaphore is
  released at most once.
\<close>

theorem Unlock_wake_loop:
  "step rt m (f\<lparr>pc := Unlock_Load\<rparr>) =
     (if waiters (state m) = 0 \<or> state m AND mutexWoken \<noteq> 0 \<or> state m AND mutexLocked \<noteq> 0
      then (m, Inr (f\<lparr>pc := Returned, old := state m\<rparr>, []))
      else (m, Inr (f\<lparr>pc := Unlock_CAS, old := state m,
                      new := (state m - push_bit mutexWaiterShift 1) OR mutexWoken\<rparr>, []))) \<and>
   step rt m (f\<lparr>pc := Unlock_Add\<rparr>) =
     (let x = state m - mutexLocked in
      if state m AND mutexLocked = 0
      then (m\<lparr>state := x\<rparr>, Inl (Panic ''sync: unlock of unlocked mutex''))
      else if waiters x = 0 \<or> x AND mutexWoken \<noteq> 0 \<or> x AND mutexLocked \<noteq> 0
      then (m\<lparr>state := x\<rparr>, Inr (f\<lparr>pc := Returned, old := x, new := x\<rparr>, race_release rt))
      else (m\<lparr>state := x\<rparr>,
            Inr (f\<lparr>pc := Unlock_CAS, old := x,
                   new := (x - push_bit mutexWaiterShift 1) OR mutexWoken\<rparr>, race_release rt))) \<and>
   Semrelease \<notin> set (race_release rt) \<and>
   step rt m (f\<lparr>pc := Unlock_CAS\<rparr>) =
     (if state m = old f
      then (m\<lparr>state := new f\<rparr>, Inr (f\<lparr>pc := Unlock_Semrelease\<rparr>, []))
      else (m, Inr (f\<lparr>pc := Unlock_Load\<rparr>, []))) \<and>
   step rt m (f\<lparr>pc := Unlock_Semrelease\<rparr>) =
     (runtime_Semrelease m, Inr (f\<lparr>pc := Returned\<rparr>, [Semrelease])) \<and>
   count_list (events_of (Unlock sch m0)) Semrelease \<le> 1"
proof -
  have "before_release enter_Unlock"
    by (simp add: before_release_def)
  then have "releases (events_of (run sch m0 enter_Unlock [])) \<le> releases [] + 1"
    by (rule run_releases)
  then have last: "count_list (events_of (Unlock sch m0)) Semrelease \<le> 1"
    by (simp add: Unlock_def releases_def)
  have add: "step rt m (f\<lparr>pc := Unlock_Add\<rparr>) =
     (let x = state m - mutexLocked in
      if state m AND mutexLocked = 0
      then (m\<lparr>state := x\<rparr>, Inl (Panic ''sync: unlock of unlocked mutex''))
      else if waiters x = 0 \<or> x AND mutexWoken \<noteq> 0 \<or> x AND mutexLocked \<noteq> 0
      then (m\<lparr>state := x\<rparr>, Inr (f\<lparr>pc := Returned, old := x, new := x\<rparr>, race_release rt))
      else (m\<lparr>state := x\<rparr>,
            Inr (f\<lparr>pc := Unlock_CAS, old := x,
                   new := (x - push_bit mutexWaiterShift 1) OR mutexWoken\<rparr>, race_release rt)))"
    by (simp add: step_def AddInt32_def Unlock_iteration_cases Let_def)
  have rest: "step rt m (f\<lparr>pc := Unlock_Load\<rparr>) =
     (if waiters (state m) = 0 \<or> state m AND mutexWoken \<noteq> 0 \<or> state m AND mutexLocked \<noteq> 0
      then (m, Inr (f\<lparr>pc := Returned, old := state m\<rparr>, []))
      else (m, Inr (f\<lparr>pc := Unlock_CAS, old := state m,
                      new := (state m - push_bit mutexWaiterShift 1) OR mutexWoken\<rparr>, [])))"
    "step rt m (f\<lparr>pc := Unlock_CAS\<rparr>) =
     (if state m = old f
      then (m\<lparr>state := new f\<rparr>, Inr (f\<lparr>pc := Unlock_Semrelease\<rparr>, []))
      else (m, Inr (f\<lparr>pc := Unlock_Load\<rparr>, [])))"
    "step rt m (f\<lparr>pc := Unlock_Semrelease\<rparr>) =
     (runtime_Semrelease m, Inr (f\<lparr>pc := Returned\<rparr>, [Semrelease]))"
    by (simp_all add: step_def CompareAndSwapInt32_def Unlock_iteration_cases)
  show ?thesis
    using last add rest race_events(6) [of rt] by (simp only: simp_thms)
qed

theorem Unlock_wake_loop_witness:
  "step no_spin \<lparr>state = 5, sema = 0\<rparr> enter_Unlock =
     (\<lparr>state = 4, sema = 0\<rparr>, Inr (enter_Unlock\<lparr>pc := Unlock_CAS, old := 4, new := 2\<rparr>, [])) \<and>
   step no_spin \<lparr>state = 4, sema = 0\<rparr> (enter_Unlock\<lparr>pc := Unlock_CAS, old := 4, new := 2\<rparr>) =
     (\<lparr>state = 2, sema = 0\<rparr>, Inr (enter_Unlock\<lparr>pc := Unlock_Semrelease, old := 4, new := 2\<rparr>, [])) \<and>
   step no_spin \<lparr>state = 9, sema = 0\<rparr> (enter_Unlock\<lparr>pc := Unlock_Load\<rparr>) =
     (\<lparr>state = 9, sema = 0\<rparr>, Inr (enter_Unlock\<lparr>pc := Returned, old := 9\<rparr>, [])) \<and>
   events_of (Unlock [(no_spin, id), (no_spin, id), (no_spin, id)] \<lparr>state = 5, sema = 0\<rparr>) = [Semrelease] \<and>
   count_list (events_of (Unlock [(no_spin, id), (no_spin, id), (no_spin, id)] \<lparr>state = 5, sema = 0\<rparr>))
     Semrelease \<le> 1"
proof -
  have ev: "events_of (Unlock [(no_spin, id), (no_spin, id), (no_spin, id)] \<lparr>state = 5, sema = 0\<rparr>) = [Semrelease]"
    by code_simp
  note a = Unlock_wake_loop [of no_spin "\<lparr>state = 5, sema = 0\<rparr>" enter_Unlock
      "[(no_spin, id), (no_spin, id), (no_spin, id)]" "\<lparr>state = 5, sema = 0\<rparr>"]
  note b = Unlock_wake_loop [of no_spin "\<lparr>state = 4, sema = 0\<rparr>"
      "enter_Unlock\<lparr>old := 4, new := 2\<rparr>" "[]" zero_Mutex]
  note c = Unlock_wake_loop [of no_spin "\<lparr>state = 9, sema = 0\<rparr>" enter_Unlock "[]" zero_Mutex]
  have "step no_spin \<lparr>state = 5, sema = 0\<rparr> enter_Unlock =
     (\<lparr>state = 4, sema = 0\<rparr>, Inr (enter_Unlock\<lparr>pc := Unlock_CAS, old := 4, new := 2\<rparr>, []))"
    using a by (simp add: enter_Unlock_def consts_eq waiters_def race_release_def no_spin_def)
  moreover have "step no_spin \<lparr>state = 4, sema = 0\<rparr> (enter_Unlock\<lparr>pc := Unlock_CAS, old := 4, new := 2\<rparr>) =
     (\<lparr>state = 2, sema = 0\<rparr>, Inr (enter_Unlock\<lparr>pc := Unlock_Semrelease, old := 4, new := 2\<rparr>, []))"
    using b by (simp add: enter_Unlock_def)
  moreover have "step no_spin \<lparr>state = 9, sema = 0\<rparr> (enter_Unlock\<lparr>pc := Unlock_Load\<rparr>) =
     (\<lparr>state = 9, sema = 0\<rparr>, Inr (enter_Unlock\<lparr>pc := Returned, old := 9\<rparr>, []))"
    using c by (simp add: enter_Unlock_def consts_eq waiters_def)
  moreover have "count_list (events_of (Unlock [(no_spin, id), (no_spin, id), (no_spin, id)]
      \<lparr>state = 5, sema = 0\<rparr>)) Semrelease \<le> 1"
    using a by blast
  ultimately show ?thesis
    using ev by simp
qed


subsection \<open>Lock: the slow path\<close>

lemma Lock_iteration_block:
  assumes "\<not> (x AND mutexLocked \<noteq> 0 \<and> runtime_canSpin rt (iter f))"
  shows "Lock_iteration rt f x =
     (let new1 = (if x AND mutexLocked \<noteq> 0 then x + push_bit mutexWaiterShift 1
                  else x OR mutexLocked) in
      if awoke f then
        if new1 AND mutexWoken = 0 then Inl (Panic ''sync: inconsistent mutex state'')
        else Inr (f\<lparr>pc := Lock_CAS, old := x, new := new1 AND NOT mutexWoken\<rparr>, [])
      else Inr (f\<lparr>pc := Lock_CAS, old := x, new := new1\<rparr>, []))"
  using assms by (auto simp: Lock_iteration_def Let_def)

lemma Lock_iteration_spin:
  assumes "x AND mutexLocked \<noteq> 0" and "runtime_canSpin rt (iter f)"
  shows "Lock_iteration rt f x =
     (if \<not> awoke f \<and> x AND mutexWoken = 0 \<and> waiters x \<noteq> 0
      then Inr (f\<lparr>pc := Lock_SpinCAS, old := x, new := x OR mutexLocked\<rparr>, [])
      else Inr (f\<lparr>pc := Lock_Load, iter := iter f + 1, old := x, new := x OR mutexLocked\<rparr>, [DoSpin]))"
  using assms by (auto simp: Lock_iteration_def Let_def waiters_def)

text \<open>
  C9 (spinning). In Lock's loop, when the state read has the locked bit set and the
  spin advisor approves: the CAS that sets the woken bit is attempted only if \<open>awoke\<close> is
  false, the woken bit of \<open>old\<close> is clear and the waiter count of \<open>old\<close> is not zero,
  and \<open>awoke\<close> becomes true only if that CAS succeeds. In every case the goroutine then
  does one spin step, increments \<open>iter\<close> and is back at the head of the loop: it has not
  called the semaphore, and the waiter count of the state is as before.
\<close>

theorem Lock_spin:
  assumes "pc f = Lock_Load" and "state m AND mutexLocked \<noteq> 0" and "runtime_canSpin rt (iter f)"
  shows "step rt m f =
           (if \<not> awoke f \<and> state m AND mutexWoken = 0 \<and> waiters (state m) \<noteq> 0
            then (m, Inr (f\<lparr>pc := Lock_SpinCAS, old := state m, new := state m OR mutexLocked\<rparr>, []))
            else (m, Inr (f\<lparr>pc := Lock_Load, iter := iter f + 1, old := state m,
                             new := state m OR mutexLocked\<rparr>, [DoSpin]))) \<and>
         step rt' m' (f'\<lparr>pc := Lock_SpinCAS\<rparr>) =
           (if state m' = old f'
            then (m'\<lparr>state := old f' OR mutexWoken\<rparr>,
                  Inr (f'\<lparr>pc := Lock_Load, awoke := True, iter := iter f' + 1\<rparr>, [DoSpin]))
            else (m', Inr (f'\<lparr>pc := Lock_Load, iter := iter f' + 1\<rparr>, [DoSpin]))) \<and>
         waiters (old f' OR mutexWoken) = waiters (old f')"
  using assms
  by (simp add: step_def Lock_iteration_spin CompareAndSwapInt32_def)
     (simp add: waiters_def consts_eq waiters_or_woken)

theorem Lock_spin_witness:
  "pc (enter_Lock\<lparr>pc := Lock_Load\<rparr>) = Lock_Load \<and>
   state \<lparr>state = 5, sema = 0\<rparr> AND mutexLocked \<noteq> 0 \<and>
   runtime_canSpin spin4 (iter (enter_Lock\<lparr>pc := Lock_Load\<rparr>)) \<and>
   step spin4 \<lparr>state = 5, sema = 0\<rparr> (enter_Lock\<lparr>pc := Lock_Load\<rparr>) =
     (\<lparr>state = 5, sema = 0\<rparr>, Inr (enter_Lock\<lparr>pc := Lock_SpinCAS, old := 5, new := 5\<rparr>, [])) \<and>
   step spin4 \<lparr>state = 5, sema = 0\<rparr> (enter_Lock\<lparr>pc := Lock_SpinCAS, old := 5, new := 5\<rparr>) =
     (\<lparr>state = 7, sema = 0\<rparr>,
      Inr (enter_Lock\<lparr>pc := Lock_Load, awoke := True, iter := 1, old := 5, new := 5\<rparr>, [DoSpin])) \<and>
   waiters 7 = waiters 5"
proof -
  have h1: "pc (enter_Lock\<lparr>pc := Lock_Load\<rparr>) = Lock_Load"
    by simp
  have h2: "state \<lparr>state = 5, sema = 0\<rparr> AND mutexLocked \<noteq> 0"
    by (simp add: mutexLocked_eq)
  have h3: "runtime_canSpin spin4 (iter (enter_Lock\<lparr>pc := Lock_Load\<rparr>))"
    by (simp add: spin4_def enter_Lock_def)
  note a = Lock_spin [OF h1 h2 h3, of spin4 "\<lparr>state = 5, sema = 0\<rparr>" "enter_Lock\<lparr>old := 5, new := 5\<rparr>"]
  have "waiters 7 = waiters 5"
    using a by (simp add: enter_Lock_def mutexWoken_eq)
  moreover have "step spin4 \<lparr>state = 5, sema = 0\<rparr> (enter_Lock\<lparr>pc := Lock_Load\<rparr>) =
     (\<lparr>state = 5, sema = 0\<rparr>, Inr (enter_Lock\<lparr>pc := Lock_SpinCAS, old := 5, new := 5\<rparr>, []))"
    using a by (simp add: enter_Lock_def consts_eq waiters_def)
  moreover have "step spin4 \<lparr>state = 5, sema = 0\<rparr> (enter_Lock\<lparr>pc := Lock_SpinCAS, old := 5, new := 5\<rparr>) =
     (\<lparr>state = 7, sema = 0\<rparr>,
      Inr (enter_Lock\<lparr>pc := Lock_Load, awoke := True, iter := 1, old := 5, new := 5\<rparr>, [DoSpin]))"
    using a by (simp add: enter_Lock_def consts_eq)
  ultimately show ?thesis
    using h1 h2 h3 by simp
qed

text \<open>
  C7 (the woken goroutine). In Lock's loop, when \<open>awoke\<close> is true and the goroutine does
  not spin, so that the candidate \<open>new\<close> is computed: if \<open>new\<close> lacks the woken bit, Lock
  panics with "sync: inconsistent mutex state" and the Mutex is as it was; otherwise the
  CAS of line 85 is prepared with the woken bit cleared from \<open>new\<close>. The panic happens
  exactly when the state read had the woken bit clear.
\<close>

theorem Lock_awoke_check:
  assumes "pc f = Lock_Load" and "awoke f"
    and "\<not> (state m AND mutexLocked \<noteq> 0 \<and> runtime_canSpin rt (iter f))"
  shows "step rt m f =
           (let new1 = (if state m AND mutexLocked \<noteq> 0 then state m + push_bit mutexWaiterShift 1
                        else state m OR mutexLocked) in
            if new1 AND mutexWoken = 0 then (m, Inl (Panic ''sync: inconsistent mutex state''))
            else (m, Inr (f\<lparr>pc := Lock_CAS, old := state m, new := new1 AND NOT mutexWoken\<rparr>, []))) \<and>
         (isl (snd (step rt m f)) \<longleftrightarrow> state m AND mutexWoken = 0) \<and>
         (\<not> isl (snd (step rt m f)) \<longrightarrow>
            new (fst (projr (snd (step rt m f)))) AND mutexWoken = 0 \<and>
            pc (fst (projr (snd (step rt m f)))) = Lock_CAS)"
proof -
  have eq: "step rt m f =
           (let new1 = (if state m AND mutexLocked \<noteq> 0 then state m + push_bit mutexWaiterShift 1
                        else state m OR mutexLocked) in
            if new1 AND mutexWoken = 0 then (m, Inl (Panic ''sync: inconsistent mutex state''))
            else (m, Inr (f\<lparr>pc := Lock_CAS, old := state m, new := new1 AND NOT mutexWoken\<rparr>, [])))"
    using assms by (simp add: step_def Lock_iteration_block Let_def)
  show ?thesis
    unfolding eq by (simp add: Let_def state_bits)
qed


theorem Lock_awoke_check_witness:
  "step no_spin \<lparr>state = 2, sema = 0\<rparr> (enter_Lock\<lparr>pc := Lock_Load, awoke := True\<rparr>) =
     (\<lparr>state = 2, sema = 0\<rparr>,
      Inr (enter_Lock\<lparr>pc := Lock_CAS, awoke := True, old := 2, new := 1\<rparr>, [])) \<and>
   step no_spin \<lparr>state = 5, sema = 0\<rparr> (enter_Lock\<lparr>pc := Lock_Load, awoke := True\<rparr>) =
     (\<lparr>state = 5, sema = 0\<rparr>, Inl (Panic ''sync: inconsistent mutex state''))"
proof -
  have h1: "pc (enter_Lock\<lparr>pc := Lock_Load, awoke := True\<rparr>) = Lock_Load"
    and h2: "awoke (enter_Lock\<lparr>pc := Lock_Load, awoke := True\<rparr>)"
    by simp_all
  have h3: "\<not> (state m AND mutexLocked \<noteq> 0 \<and>
       runtime_canSpin no_spin (iter (enter_Lock\<lparr>pc := Lock_Load, awoke := True\<rparr>)))" for m
    by (simp add: no_spin_def)
  have "step no_spin \<lparr>state = 2, sema = 0\<rparr> (enter_Lock\<lparr>pc := Lock_Load, awoke := True\<rparr>) =
     (\<lparr>state = 2, sema = 0\<rparr>,
      Inr (enter_Lock\<lparr>pc := Lock_CAS, awoke := True, old := 2, new := 1\<rparr>, []))"
    using Lock_awoke_check [OF h1 h2 h3, of "\<lparr>state = 2, sema = 0\<rparr>"]
    by (simp add: enter_Lock_def consts_eq)
  moreover have "step no_spin \<lparr>state = 5, sema = 0\<rparr> (enter_Lock\<lparr>pc := Lock_Load, awoke := True\<rparr>) =
     (\<lparr>state = 5, sema = 0\<rparr>, Inl (Panic ''sync: inconsistent mutex state''))"
    using Lock_awoke_check [OF h1 h2 h3, of "\<lparr>state = 5, sema = 0\<rparr>"]
    by (simp add: enter_Lock_def consts_eq)
  ultimately show ?thesis
    by simp
qed


text \<open>
  C5 (the CAS of the slow path). When the goroutine does not spin, it prepares the CAS
  of line 85 from the state it read. When that CAS succeeds: if \<open>old\<close> had the locked bit
  clear, Lock has acquired the lock and returns, \<open>new\<close> carrying the locked bit; otherwise
  \<open>new\<close> is \<open>old\<close> plus one waiter (less the woken bit if \<open>awoke\<close>), and the goroutine
  calls \<^verbatim>\<open>runtime_Semacquire\<close>, where it stays while \<open>sema\<close> is 0. When that call
  returns, \<open>awoke\<close> is true, \<open>iter\<close> is 0 and the goroutine is at the head of the loop
  again: the wake has not given it the lock.
\<close>

theorem Lock_slow_path_CAS:
  assumes "pc f = Lock_Load"
    and "\<not> (state m AND mutexLocked \<noteq> 0 \<and> runtime_canSpin rt (iter f))"
    and "step rt m f = (m, Inr (f1, evs1))"
    and "state m1 = old f1"
  shows "pc f1 = Lock_CAS \<and> old f1 = state m \<and> evs1 = [] \<and>
         (if old f1 AND mutexLocked = 0
          then step rt1 m1 f1 = (m1\<lparr>state := new f1\<rparr>, Inr (f1\<lparr>pc := Returned\<rparr>, race_acquire rt1)) \<and>
               new f1 AND mutexLocked \<noteq> 0 \<and> Semacquire \<notin> set (race_acquire rt1)
          else step rt1 m1 f1 = (m1\<lparr>state := new f1\<rparr>, Inr (f1\<lparr>pc := Lock_Semacquire\<rparr>, [])) \<and>
               new f1 = (if awoke f then (old f1 + push_bit mutexWaiterShift 1) AND NOT mutexWoken
                         else old f1 + push_bit mutexWaiterShift 1) \<and>
               step rt2 m2 (f1\<lparr>pc := Lock_Semacquire\<rparr>) =
                 (if sema m2 = 0 then (m2, Inr (f1\<lparr>pc := Lock_Semacquire\<rparr>, []))
                  else (m2\<lparr>sema := sema m2 - 1\<rparr>,
                        Inr (f1\<lparr>pc := Lock_Load, awoke := True, iter := 0\<rparr>, [Semacquire]))))"
proof -
  have "Lock_iteration rt f (state m) = Inr (f1, evs1)"
    using assms(1,3) by (simp add: step_def)
  then have f1: "pc f1 = Lock_CAS" "old f1 = state m" "evs1 = []"
    "new f1 = (let new1 = (if state m AND mutexLocked \<noteq> 0 then state m + push_bit mutexWaiterShift 1
                  else state m OR mutexLocked) in if awoke f then new1 AND NOT mutexWoken else new1)"
    using assms(2) by (auto simp: Lock_iteration_block Let_def split: if_splits)
  show ?thesis
    using f1 assms(4)
    by (auto simp: step_def prims race_events Let_def state_bits)
qed


theorem Lock_slow_path_CAS_witness:
  "step no_spin \<lparr>state = 1, sema = 0\<rparr> (enter_Lock\<lparr>pc := Lock_Load\<rparr>) =
     (\<lparr>state = 1, sema = 0\<rparr>, Inr (enter_Lock\<lparr>pc := Lock_CAS, old := 1, new := 5\<rparr>, [])) \<and>
   step no_spin \<lparr>state = 1, sema = 0\<rparr> (enter_Lock\<lparr>pc := Lock_CAS, old := 1, new := 5\<rparr>) =
     (\<lparr>state = 5, sema = 0\<rparr>, Inr (enter_Lock\<lparr>pc := Lock_Semacquire, old := 1, new := 5\<rparr>, [])) \<and>
   step no_spin \<lparr>state = 4, sema = 1\<rparr> (enter_Lock\<lparr>pc := Lock_Semacquire, old := 1, new := 5\<rparr>) =
     (\<lparr>state = 4, sema = 0\<rparr>,
      Inr (enter_Lock\<lparr>pc := Lock_Load, awoke := True, old := 1, new := 5\<rparr>, [Semacquire])) \<and>
   step no_spin \<lparr>state = 2, sema = 0\<rparr> (enter_Lock\<lparr>pc := Lock_Load\<rparr>) =
     (\<lparr>state = 2, sema = 0\<rparr>, Inr (enter_Lock\<lparr>pc := Lock_CAS, old := 2, new := 3\<rparr>, [])) \<and>
   step no_spin \<lparr>state = 2, sema = 0\<rparr> (enter_Lock\<lparr>pc := Lock_CAS, old := 2, new := 3\<rparr>) =
     (\<lparr>state = 3, sema = 0\<rparr>, Inr (enter_Lock\<lparr>pc := Returned, old := 2, new := 3\<rparr>, []))"
proof -
  have h1: "pc (enter_Lock\<lparr>pc := Lock_Load\<rparr>) = Lock_Load"
    by simp
  have h2: "\<not> (state m AND mutexLocked \<noteq> 0 \<and>
       runtime_canSpin no_spin (iter (enter_Lock\<lparr>pc := Lock_Load\<rparr>)))" for m
    by (simp add: no_spin_def)
  have s1: "step no_spin \<lparr>state = 1, sema = 0\<rparr> (enter_Lock\<lparr>pc := Lock_Load\<rparr>) =
     (\<lparr>state = 1, sema = 0\<rparr>, Inr (enter_Lock\<lparr>pc := Lock_CAS, old := 1, new := 5\<rparr>, []))"
    by code_simp
  have s2: "step no_spin \<lparr>state = 2, sema = 0\<rparr> (enter_Lock\<lparr>pc := Lock_Load\<rparr>) =
     (\<lparr>state = 2, sema = 0\<rparr>, Inr (enter_Lock\<lparr>pc := Lock_CAS, old := 2, new := 3\<rparr>, []))"
    by code_simp
  have h4: "state \<lparr>state = 1, sema = 0\<rparr> = old (enter_Lock\<lparr>pc := Lock_CAS, old := 1, new := 5\<rparr>)"
    and h5: "state \<lparr>state = 2, sema = 0\<rparr> = old (enter_Lock\<lparr>pc := Lock_CAS, old := 2, new := 3\<rparr>)"
    by simp_all
  note a = Lock_slow_path_CAS [OF h1 h2 s1 h4, of no_spin no_spin "\<lparr>state = 4, sema = 1\<rparr>"]
  note b = Lock_slow_path_CAS [OF h1 h2 s2 h5, of no_spin no_spin zero_Mutex]
  have "step no_spin \<lparr>state = 1, sema = 0\<rparr> (enter_Lock\<lparr>pc := Lock_CAS, old := 1, new := 5\<rparr>) =
     (\<lparr>state = 5, sema = 0\<rparr>, Inr (enter_Lock\<lparr>pc := Lock_Semacquire, old := 1, new := 5\<rparr>, []))"
    and "step no_spin \<lparr>state = 4, sema = 1\<rparr> (enter_Lock\<lparr>pc := Lock_Semacquire, old := 1, new := 5\<rparr>) =
     (\<lparr>state = 4, sema = 0\<rparr>,
      Inr (enter_Lock\<lparr>pc := Lock_Load, awoke := True, old := 1, new := 5\<rparr>, [Semacquire]))"
    using a by (simp_all add: enter_Lock_def mutexLocked_eq)
  moreover have "step no_spin \<lparr>state = 2, sema = 0\<rparr> (enter_Lock\<lparr>pc := Lock_CAS, old := 2, new := 3\<rparr>) =
     (\<lparr>state = 3, sema = 0\<rparr>, Inr (enter_Lock\<lparr>pc := Returned, old := 2, new := 3\<rparr>, []))"
    using b by (simp add: enter_Lock_def mutexLocked_eq race_acquire_def no_spin_def)
  ultimately show ?thesis
    using s1 s2 by simp
qed

subsection \<open>Lock and Unlock without contention\<close>

text \<open>
  C8 (the zero value, and Lock followed by Unlock). On the zero Mutex, with a single
  goroutine and nobody else, Lock returns after its first step with only the locked bit
  set, and Unlock then returns after its first step and the Mutex is the zero Mutex
  again. Neither call spins or calls the semaphore, and any number of repetitions of
  Lock and then Unlock leaves the zero Mutex as it is.
\<close>

theorem uncontended_Lock_Unlock:
  "Lock ((rt, id) # rest) zero_Mutex =
     (zero_Mutex\<lparr>state := mutexLocked\<rparr>, Inr (enter_Lock\<lparr>pc := Returned\<rparr>, race_acquire rt)) \<and>
   Unlock ((rt', id) # rest') (zero_Mutex\<lparr>state := mutexLocked\<rparr>) =
     (zero_Mutex, Inr (enter_Unlock\<lparr>pc := Returned, old := 0, new := 0\<rparr>, race_release rt')) \<and>
   set (race_acquire rt @ race_release rt') \<inter> {DoSpin, Semacquire, Semrelease} = {} \<and>
   (Lock_Unlock rt ^^ n) zero_Mutex = zero_Mutex"
proof -
  have L: "Lock ((rt, id) # rest) zero_Mutex =
     (zero_Mutex\<lparr>state := mutexLocked\<rparr>, Inr (enter_Lock\<lparr>pc := Returned\<rparr>, race_acquire rt))" for rt rest
    using Lock_on_free [of id zero_Mutex rt rest] by (simp add: zero_Mutex_def)
  have U: "Unlock ((rt', id) # rest') (zero_Mutex\<lparr>state := mutexLocked\<rparr>) =
     (zero_Mutex, Inr (enter_Unlock\<lparr>pc := Returned, old := 0, new := 0\<rparr>, race_release rt'))" for rt' rest'
    using Unlock_on_locked [of id "zero_Mutex\<lparr>state := mutexLocked\<rparr>" rt' rest']
    by (simp add: zero_Mutex_def)
  have "Lock_Unlock rt zero_Mutex = zero_Mutex"
    by (simp add: Lock_Unlock_def L U)
  then have "(Lock_Unlock rt ^^ n) zero_Mutex = zero_Mutex"
    by (induction n) simp_all
  moreover have "set (race_acquire rt @ race_release rt') \<inter> {DoSpin, Semacquire, Semrelease} = {}"
    by (simp add: race_acquire_def race_release_def)
  ultimately show ?thesis
    using L U by simp
qed


theorem uncontended_Lock_Unlock_witness:
  "Lock [(spin4, id)] zero_Mutex = (\<lparr>state = 1, sema = 0\<rparr>, Inr (enter_Lock\<lparr>pc := Returned\<rparr>, [])) \<and>
   Unlock [(spin4, id)] \<lparr>state = 1, sema = 0\<rparr> =
     (zero_Mutex, Inr (enter_Unlock\<lparr>pc := Returned\<rparr>, [])) \<and>
   (Lock_Unlock spin4 ^^ 3) zero_Mutex = zero_Mutex"
  using uncontended_Lock_Unlock [of spin4 "[]" spin4 "[]" 3]
  by (simp add: zero_Mutex_def mutexLocked_eq race_acquire_def race_release_def spin4_def
      enter_Unlock_def)

subsection \<open>The woken bit and the waiter count\<close>

text \<open>
  C6 as stated fails: the woken bit can be set while the waiter count is zero. When
  Unlock wakes the only waiter, the CAS of line 129 takes that waiter off the count and sets the woken bit at
  once (state 4 becomes state 2).
\<close>

theorem woken_without_waiters_counterexample:
  "state (mutex (execute wake_last_waiter (init 2))) AND mutexWoken \<noteq> 0 \<and>
   waiters (state (mutex (execute wake_last_waiter (init 2)))) = 0"
  by code_simp

lemma step_woken_bit:
  assumes "step rt m f = (m', Inr (f', evs))" and "frame_ok f"
    and "\<not> bit (state m) (Suc 0)" and "bit (state m') (Suc 0)"
  shows "waiters (state m) \<noteq> 0"
  using assms
  by (cases "pc f")
     (auto simp: step_def prims frame_ok_def state_bits Lock_iteration_def Unlock_iteration_def Let_def
           split: if_splits)

lemma sys_inv_reachable: "sys_inv (execute sched (init n))"
  by (rule sys_inv_execute [OF sys_inv_init])

text \<open>
  C6, amended (the woken bit is turned on only where there are waiters). In every
  reachable state of the system, a step of Lock or Unlock that does not panic and that
  turns the woken bit on is taken in a state whose waiter count is not zero.
\<close>

theorem woken_set_only_with_waiters:
  assumes "\<not> fatal a (execute sched (init n))"
    and "state (mutex (execute sched (init n))) AND mutexWoken = 0"
    and "state (mutex (sys_step a (execute sched (init n)))) AND mutexWoken \<noteq> 0"
  shows "waiters (state (mutex (execute sched (init n)))) \<noteq> 0"
proof -
  define s where "s = execute sched (init n)"
  have inv: "sys_inv s"
    unfolding s_def by (rule sys_inv_reachable)
  have before: "\<not> bit (state (mutex s)) (Suc 0)"
    using assms(2) by (simp add: s_def state_bits)
  have after: "bit (state (mutex (sys_step a s))) (Suc 0)"
    using assms(3) by (simp add: s_def state_bits)
  have "waiters (state (mutex s)) \<noteq> 0"
  proof (cases a)
    case (Call_Lock g)
    then show ?thesis
      using before after by (simp add: sys_step_def split: if_splits)
  next
    case (Call_Unlock g)
    then show ?thesis
      using before after by (simp add: sys_step_def split: if_splits)
  next
    case (Run g rt)
    show ?thesis
    proof (cases "g < length (goroutines s)")
      case False
      then show ?thesis
        using Run before after by (simp add: sys_step_def)
    next
      case True
      define f where "f = goroutines s ! g"
      have f_ok: "frame_ok f"
        using inv True by (simp add: sys_inv_def f_def list_all_length)
      have no_panic: "\<not> isl (snd (step rt (mutex s) f))"
        using assms(1) Run True by (simp add: fatal_def s_def f_def)
      obtain m' r where r: "step rt (mutex s) f = (m', r)"
        by (cases "step rt (mutex s) f")
      obtain p where "r = Inr p"
        using no_panic r by (cases r) simp_all
      then obtain f' evs where st: "step rt (mutex s) f = (m', Inr (f', evs))"
        using r by (cases p) simp
      have "mutex (sys_step a s) = m'"
        using Run True st by (simp add: sys_step_def f_def [symmetric])
      then show ?thesis
        using step_woken_bit [OF st f_ok before] after by simp
    qed
  qed
  then show ?thesis
    by (simp add: s_def)
qed

theorem woken_set_only_with_waiters_witness:
  "\<not> fatal (Run 0 no_spin) (execute (butlast wake_last_waiter) (init 2)) \<and>
   state (mutex (execute (butlast wake_last_waiter) (init 2))) AND mutexWoken = 0 \<and>
   state (mutex (sys_step (Run 0 no_spin) (execute (butlast wake_last_waiter) (init 2)))) AND mutexWoken \<noteq> 0 \<and>
   waiters (state (mutex (execute (butlast wake_last_waiter) (init 2)))) \<noteq> 0"
proof -
  have h1: "\<not> fatal (Run 0 no_spin) (execute (butlast wake_last_waiter) (init 2))"
    by code_simp
  have h2: "state (mutex (execute (butlast wake_last_waiter) (init 2))) AND mutexWoken = 0"
    by code_simp
  have h3: "state (mutex (sys_step (Run 0 no_spin) (execute (butlast wake_last_waiter) (init 2)))) AND mutexWoken \<noteq> 0"
    by code_simp
  show ?thesis
    using woken_set_only_with_waiters [OF h1 h2 h3] h1 h2 h3 by simp
qed

end
